theory Spec2Isabelle
  imports Complex_Main "HOL-Library.Log_Nat"
begin

section \<open>Gap insertion along a vector path (vectorize\_fast.py)\<close>

text \<open>
  The development embeds \<^verbatim>\<open>insert_gaps_in_path\<close> of \<^verbatim>\<open>vectorize_fast.py\<close>, twice.
  \<open>insert_gaps_in_path\<close> reads the Python floats as exact real numbers.
  \<open>insert_gaps_in_path_fl\<close> takes the rounding of the float format as a parameter and
  applies it to the result of every arithmetic operation of the source; with the identity
  it is the exact version, with \<open>rnd64\<close> it computes in binary64. The number of gaps, the
  termination of the loop and the coverage of the path depend on rounding and are stated
  on the float version. Values are finite reals throughout: infinities and NaN are not
  represented.
\<close>

subsection \<open>The curve abstraction\<close>

text \<open>
  The path type comes from the geometry library \<^verbatim>\<open>svgpathtools\<close>, which is not part of
  the repository. The three operations the function uses are taken as parameters:
  \<^verbatim>\<open>len(path)\<close> (number of primitives), \<^verbatim>\<open>path.length()\<close> (total arc length) and
  \<^verbatim>\<open>path.cropped(t0, t1)\<close>, where \<open>None\<close> stands for a crop that raised an exception.
\<close>

record 'p curve_ops =
  plen :: "'p \<Rightarrow> nat"
  plength :: "'p \<Rightarrow> real"
  cropped :: "'p \<Rightarrow> real \<Rightarrow> real \<Rightarrow> 'p option"

subsection \<open>Gap placement (source lines 185--204)\<close>

text \<open>
  The \<^verbatim>\<open>while pos < total_length\<close> loop. It does not terminate for every input, so it is
  a partial function: \<open>None\<close> is the loop that runs forever. The list \<open>gap_positions\<close> is
  the accumulator the loop appends to. Sums and quotients are exact in this first reading;
  \<open>place_gaps_fl\<close> and \<open>build_segments_fl\<close> below round them as the floats do.
\<close>

partial_function (option) place_gaps ::
  "real \<Rightarrow> real \<Rightarrow> real \<Rightarrow> real \<Rightarrow> (real \<times> real) list \<Rightarrow> (real \<times> real) list option"
where
  "place_gaps gap_length gap_spacing total_length pos gap_positions =
     (if pos < total_length
      then place_gaps gap_length gap_spacing total_length (pos + gap_spacing)
             (gap_positions @ [(pos, min (pos + gap_length) total_length)])
      else Some gap_positions)"

declare place_gaps.simps [code]

definition gap_positions :: "real \<Rightarrow> real \<Rightarrow> real \<Rightarrow> (real \<times> real) list option" where
  "gap_positions gap_length gap_spacing total_length =
     (if total_length < gap_spacing then
        (let mid = total_length / 2;
             gap_start = max 0 (mid - gap_length / 2);
             gap_end = min total_length (mid + gap_length / 2)
         in if gap_start > 0 \<or> gap_end < total_length
            then Some [(gap_start, gap_end)]
            else Some [])
      else place_gaps gap_length gap_spacing total_length gap_spacing [])"

subsection \<open>Segment construction (source lines 210--250)\<close>

definition clamp01 :: "real \<Rightarrow> real" where
  "clamp01 t = max 0 (min 1 t)"

text \<open>
  One guarded crop: the body of a \<^verbatim>\<open>try\<close> block once \<open>t_start\<close> and \<open>t_end\<close> are
  clamped. A crop that raises leaves \<open>segments_out\<close> as it was (\<^verbatim>\<open>except: pass\<close>).
\<close>

definition crop_segment ::
  "'p curve_ops \<Rightarrow> 'p \<Rightarrow> real \<Rightarrow> real \<Rightarrow> 'p list \<Rightarrow> 'p list" where
  "crop_segment ops path t_start t_end segments_out =
     (if t_end > t_start then
        (case cropped ops path t_start t_end of
           None \<Rightarrow> segments_out
         | Some seg \<Rightarrow> if plen ops seg > 0 then segments_out @ [seg] else segments_out)
      else segments_out)"

text \<open>The \<^verbatim>\<open>for gap_start, gap_end in gap_positions\<close> loop, returning the cursor and the output.\<close>

fun build_segments ::
  "'p curve_ops \<Rightarrow> 'p \<Rightarrow> real \<Rightarrow> (real \<times> real) list \<Rightarrow> real \<Rightarrow> 'p list \<Rightarrow> real \<times> 'p list"
where
  "build_segments ops path total_length [] segment_start segments_out =
     (segment_start, segments_out)"
| "build_segments ops path total_length ((gap_start, gap_end) # rest) segment_start segments_out =
     build_segments ops path total_length rest gap_end
       (if segment_start < gap_start
        then crop_segment ops path (clamp01 (segment_start / total_length))
               (clamp01 (gap_start / total_length)) segments_out
        else segments_out)"

text \<open>The trailing segment after the last gap; the test \<^verbatim>\<open>t_start < 1.0\<close> is the guard of the crop.\<close>

definition final_segment ::
  "'p curve_ops \<Rightarrow> 'p \<Rightarrow> real \<Rightarrow> real \<Rightarrow> 'p list \<Rightarrow> 'p list" where
  "final_segment ops path total_length segment_start segments_out =
     (if segment_start < total_length
      then crop_segment ops path (clamp01 (segment_start / total_length)) 1 segments_out
      else segments_out)"

subsection \<open>The whole function\<close>

definition insert_gaps_in_path ::
  "'p curve_ops \<Rightarrow> 'p \<Rightarrow> real \<Rightarrow> real \<Rightarrow> 'p list option" where
  "insert_gaps_in_path ops path gap_length gap_spacing =
     (if plen ops path = 0 then Some []
      else
        (let total_length = plength ops path in
         if total_length = 0 then Some [path]
         else
           (case gap_positions gap_length gap_spacing total_length of
              None \<Rightarrow> None
            | Some gaps \<Rightarrow>
                if gaps = [] then Some [path]
                else
                  (let (segment_start, segments_out) =
                         build_segments ops path total_length gaps 0 [];
                       segments_out = final_segment ops path total_length segment_start segments_out
                   in Some (if segments_out \<noteq> [] then segments_out else [path])))))"

subsection \<open>An ideal curve\<close>

text \<open>
  Modelled from the spec: the curve abstraction of the external geometry library, which
  the repository does not contain. A curve is a range \<open>(a, b)\<close> of arc length on a parent
  curve and has one primitive; its arc length is \<open>b - a\<close>; cropping to \<open>[t0, t1]\<close> always
  succeeds and yields the sub-range whose arc length is \<open>(t1 - t0)\<close> times the total.
\<close>

definition ideal_ops :: "(real \<times> real) curve_ops" where
  "ideal_ops =
     \<lparr> plen = (\<lambda>_. 1),
       plength = (\<lambda>(a, b). b - a),
       cropped = (\<lambda>(a, b) t0 t1. Some (a + t0 * (b - a), a + t1 * (b - a))) \<rparr>"

text \<open>
  The crop contract of the spec for one curve: every crop over a range
  \<open>0 \<le> t0 < t1 \<le> 1\<close> succeeds with a non-empty curve of proportional arc length.
\<close>

definition crop_ok :: "'p curve_ops \<Rightarrow> 'p \<Rightarrow> bool" where
  "crop_ok ops path \<longleftrightarrow>
     (\<forall>t0 t1. 0 \<le> t0 \<and> t0 < t1 \<and> t1 \<le> 1 \<longrightarrow>
        (\<exists>seg. cropped ops path t0 t1 = Some seg \<and> 0 < plen ops seg \<and>
               plength ops seg = (t1 - t0) * plength ops path))"

subsection \<open>Notions used to state the properties\<close>

text \<open>
  The gap list as the spec describes it for a long path: the \<open>k\<close>-th gap starts at
  \<open>k * gap_spacing\<close>, for \<open>k = 1, 2, ...\<close> while that start lies before the path end,
  and is clipped to the path end.
\<close>

definition periodic_gaps :: "real \<Rightarrow> real \<Rightarrow> real \<Rightarrow> (real \<times> real) list" where
  "periodic_gaps gap_length gap_spacing total_length =
     map (\<lambda>k. (real k * gap_spacing, min (real k * gap_spacing + gap_length) total_length))
       [1..<nat \<lceil>total_length / gap_spacing\<rceil>]"




text \<open>
  The normalised ranges on which the \<^verbatim>\<open>for\<close> loop and the trailing crop call \<^verbatim>\<open>path.cropped\<close>, in order: they
  depend on the gaps, the cursor and the total length only, never on what a crop returns.
\<close>

fun crop_ranges :: "real \<Rightarrow> (real \<times> real) list \<Rightarrow> real \<Rightarrow> (real \<times> real) list" where
  "crop_ranges total_length [] segment_start =
     (if segment_start < total_length \<and> clamp01 (segment_start / total_length) < 1
      then [(clamp01 (segment_start / total_length), 1)] else [])"
| "crop_ranges total_length ((gap_start, gap_end) # rest) segment_start =
     (if segment_start < gap_start \<and>
         clamp01 (segment_start / total_length) < clamp01 (gap_start / total_length)
      then [(clamp01 (segment_start / total_length), clamp01 (gap_start / total_length))]
      else []) @ crop_ranges total_length rest gap_end"





text \<open>
  The invariant of the segment loop: the cursor \<open>c\<close> and the remaining gaps lie within the
  path, each gap ends at or after its start and at or after the cursor, and starts and ends
  do not decrease along the list.
\<close>

definition gaps_fit :: "real \<Rightarrow> real \<Rightarrow> (real \<times> real) list \<Rightarrow> bool" where
  "gaps_fit L c gaps \<longleftrightarrow>
     0 \<le> c \<and> c \<le> L \<and>
     (\<forall>g \<in> set gaps. 0 \<le> fst g \<and> fst g \<le> snd g \<and> snd g \<le> L \<and> c \<le> snd g) \<and>
     sorted_wrt (\<lambda>g h. fst g \<le> fst h \<and> snd g \<le> snd h) gaps"

subsection \<open>Float arithmetic\<close>

text \<open>
  The source computes with Python floats (IEEE binary64). Every arithmetic operation
  returns the exact result rounded to 53 significant bits, to nearest, ties to even.
  \<open>rne\<close> rounds a real to the nearest integer, ties to even; \<open>ilog2\<close> is the binary
  exponent of a positive number; \<open>rnd64\<close> rounds to binary64. The exponent range is not
  bounded here: overflow to infinity, gradual underflow and NaN are not represented.
\<close>

definition rne :: "real \<Rightarrow> int" where
  "rne y =
     (let f = \<lfloor>y\<rfloor>; d = y - of_int f
      in if d < 1 / 2 then f else if 1 / 2 < d then f + 1 else if even f then f else f + 1)"

definition ilog2 :: "real \<Rightarrow> int" where
  "ilog2 x = (if 1 \<le> x then bitlen \<lfloor>x\<rfloor> - 1 else - bitlen (\<lceil>1 / x\<rceil> - 1))"

definition rnd_pos :: "real \<Rightarrow> real" where
  "rnd_pos x = (let e = ilog2 x - 52 in of_int (rne (x / 2 powi e)) * 2 powi e)"

definition rnd64 :: "real \<Rightarrow> real" where
  "rnd64 x = (if x = 0 then 0 else if 0 < x then rnd_pos x else - rnd_pos (- x))"

text \<open>
  What the results below need of a rounding function: it is monotone, leaves its own
  results unchanged, and returns 0 and 1 exactly. Exact arithmetic (the identity) and
  \<open>rnd64\<close> are both instances.
\<close>

definition rounding :: "(real \<Rightarrow> real) \<Rightarrow> bool" where
  "rounding rnd \<longleftrightarrow>
     (\<forall>x y. x \<le> y \<longrightarrow> rnd x \<le> rnd y) \<and> (\<forall>x. rnd (rnd x) = rnd x) \<and> rnd 0 = 0 \<and> rnd 1 = 1"

subsection \<open>The function in float arithmetic\<close>

text \<open>
  The same function, line for line, with the rounding \<open>rnd\<close> of the float format applied
  to the result of every addition, subtraction and division of the source; comparisons,
  \<^verbatim>\<open>min\<close> and \<^verbatim>\<open>max\<close> are exact. The accumulator of the loop, \<^verbatim>\<open>gap_positions\<close> in
  the source, is called \<open>recorded\<close> here. With \<open>rnd\<close> the identity these are the
  definitions above.
\<close>

partial_function (option) place_gaps_fl ::
  "(real \<Rightarrow> real) \<Rightarrow> real \<Rightarrow> real \<Rightarrow> real \<Rightarrow> real \<Rightarrow> (real \<times> real) list
     \<Rightarrow> (real \<times> real) list option"
where
  "place_gaps_fl rnd gap_length gap_spacing total_length pos recorded =
     (if pos < total_length
      then place_gaps_fl rnd gap_length gap_spacing total_length (rnd (pos + gap_spacing))
             (recorded @ [(pos, min (rnd (pos + gap_length)) total_length)])
      else Some recorded)"

declare place_gaps_fl.simps [code]

definition gap_positions_fl ::
  "(real \<Rightarrow> real) \<Rightarrow> real \<Rightarrow> real \<Rightarrow> real \<Rightarrow> (real \<times> real) list option" where
  "gap_positions_fl rnd gap_length gap_spacing total_length =
     (if total_length < gap_spacing then
        (let mid = rnd (total_length / 2);
             gap_start = max 0 (rnd (mid - rnd (gap_length / 2)));
             gap_end = min total_length (rnd (mid + rnd (gap_length / 2)))
         in if gap_start > 0 \<or> gap_end < total_length
            then Some [(gap_start, gap_end)]
            else Some [])
      else place_gaps_fl rnd gap_length gap_spacing total_length gap_spacing [])"

fun build_segments_fl ::
  "(real \<Rightarrow> real) \<Rightarrow> 'p curve_ops \<Rightarrow> 'p \<Rightarrow> real \<Rightarrow> (real \<times> real) list \<Rightarrow> real \<Rightarrow> 'p list
     \<Rightarrow> real \<times> 'p list"
where
  "build_segments_fl rnd ops path total_length [] segment_start segments_out =
     (segment_start, segments_out)"
| "build_segments_fl rnd ops path total_length ((gap_start, gap_end) # rest) segment_start
       segments_out =
     build_segments_fl rnd ops path total_length rest gap_end
       (if segment_start < gap_start
        then crop_segment ops path (clamp01 (rnd (segment_start / total_length)))
               (clamp01 (rnd (gap_start / total_length))) segments_out
        else segments_out)"

definition final_segment_fl ::
  "(real \<Rightarrow> real) \<Rightarrow> 'p curve_ops \<Rightarrow> 'p \<Rightarrow> real \<Rightarrow> real \<Rightarrow> 'p list \<Rightarrow> 'p list" where
  "final_segment_fl rnd ops path total_length segment_start segments_out =
     (if segment_start < total_length
      then crop_segment ops path (clamp01 (rnd (segment_start / total_length))) 1 segments_out
      else segments_out)"

definition insert_gaps_in_path_fl ::
  "(real \<Rightarrow> real) \<Rightarrow> 'p curve_ops \<Rightarrow> 'p \<Rightarrow> real \<Rightarrow> real \<Rightarrow> 'p list option" where
  "insert_gaps_in_path_fl rnd ops path gap_length gap_spacing =
     (if plen ops path = 0 then Some []
      else
        (let total_length = plength ops path in
         if total_length = 0 then Some [path]
         else
           (case gap_positions_fl rnd gap_length gap_spacing total_length of
              None \<Rightarrow> None
            | Some gaps \<Rightarrow>
                if gaps = [] then Some [path]
                else
                  (let (segment_start, segments_out) =
                         build_segments_fl rnd ops path total_length gaps 0 [];
                       segments_out =
                         final_segment_fl rnd ops path total_length segment_start segments_out
                   in Some (if segments_out \<noteq> [] then segments_out else [path])))))"




section \<open>The placement loop\<close>

lemma place_gaps_steps:
  assumes "0 < gs"
  shows "nat \<lceil>(TL - pos) / gs\<rceil> = n \<Longrightarrow>
    place_gaps gl gs TL pos acc =
      Some (acc @ map (\<lambda>k. (pos + real k * gs, min (pos + real k * gs + gl) TL)) [0..<n])"
proof (induction n arbitrary: pos acc)
  case 0
  then have "(TL - pos) / gs \<le> 0" by simp
  with assms have "\<not> pos < TL" by (simp add: divide_le_0_iff)
  then show ?case by (subst place_gaps.simps) simp
next
  case (Suc n)
  have "\<not> \<lceil>(TL - pos) / gs\<rceil> \<le> 0" using Suc.prems by auto
  then have "0 < (TL - pos) / gs" by (simp add: ceiling_le_zero)
  with assms have lt: "pos < TL" by (simp add: zero_less_divide_iff)
  have "(TL - (pos + gs)) / gs = (TL - pos) / gs - 1" using assms by (simp add: field_simps)
  then have "nat \<lceil>(TL - (pos + gs)) / gs\<rceil> = n" using Suc.prems by simp
  from Suc.IH[OF this]
  have step: "place_gaps gl gs TL (pos + gs) (acc @ [(pos, min (pos + gl) TL)]) =
      Some ((acc @ [(pos, min (pos + gl) TL)]) @
        map (\<lambda>k. (pos + gs + real k * gs, min (pos + gs + real k * gs + gl) TL)) [0..<n])" .
  have "map (\<lambda>k. (pos + real k * gs, min (pos + real k * gs + gl) TL)) [0..<Suc n] =
     (pos, min (pos + gl) TL) #
     map (\<lambda>k. (pos + gs + real k * gs, min (pos + gs + real k * gs + gl) TL)) [0..<n]"
    by (simp add: upt_conv_Cons map_Suc_upt[symmetric] algebra_simps del: upt_Suc)
  with step lt show ?case by (subst place_gaps.simps) simp
qed

lemma place_gaps_diverges:
  assumes "gs \<le> 0" "pos < TL"
  shows "place_gaps gl gs TL pos acc = None"
proof (rule ccontr)
  assume "place_gaps gl gs TL pos acc \<noteq> None"
  then obtain y where y: "place_gaps gl gs TL pos acc = Some y" by auto
  have "\<not> (gs \<le> 0 \<and> pos < TL)"
  proof (rule place_gaps.raw_induct
      [where P = "\<lambda>a b c d e r. \<not> (b \<le> 0 \<and> d < c)", OF _ y])
    fix f :: "real \<Rightarrow> real \<Rightarrow> real \<Rightarrow> real \<Rightarrow> (real \<times> real) list \<Rightarrow> (real \<times> real) list option"
    fix a b c d :: real and e r :: "(real \<times> real) list"
    assume IH: "\<And>a b c d e r. f a b c d e = Some r \<Longrightarrow> \<not> (b \<le> 0 \<and> d < c)"
    assume eq: "(if d < c then f a b c (d + b) (e @ [(d, min (d + a) c)]) else Some e) = Some r"
    show "\<not> (b \<le> 0 \<and> d < c)"
    proof
      assume h: "b \<le> 0 \<and> d < c"
      with eq have "f a b c (d + b) (e @ [(d, min (d + a) c)]) = Some r" by simp
      from IH[OF this] h show False by simp
    qed
  qed
  with assms show False by simp
qed

lemma place_gaps_at_end: "\<not> pos < TL \<Longrightarrow> place_gaps gl gs TL pos acc = Some acc"
  by (subst place_gaps.simps) simp

lemma gap_positions_long:
  assumes "0 < gs" "gs \<le> TL"
  shows "gap_positions gl gs TL = Some (periodic_gaps gl gs TL)"
proof -
  have "(TL - gs) / gs = TL / gs - 1" using assms by (simp add: field_simps)
  then have n: "nat \<lceil>(TL - gs) / gs\<rceil> = nat \<lceil>TL / gs\<rceil> - 1" by simp
  have "map (\<lambda>k. (gs + real k * gs, min (gs + real k * gs + gl) TL)) [0..<nat \<lceil>TL / gs\<rceil> - 1] =
        map (\<lambda>k. (real k * gs, min (real k * gs + gl) TL)) (map Suc [0..<nat \<lceil>TL / gs\<rceil> - 1])"
    by (simp add: algebra_simps)
  also have "map Suc [0..<nat \<lceil>TL / gs\<rceil> - 1] = [1..<nat \<lceil>TL / gs\<rceil>]"
    by (cases "nat \<lceil>TL / gs\<rceil>") (simp_all add: map_Suc_upt del: upt_Suc)
  finally show ?thesis
    using assms place_gaps_steps[OF assms(1) n, of gl "[]"]
    by (simp add: gap_positions_def periodic_gaps_def)
qed

lemma gap_positions_short:
  assumes "TL < gs"
  shows "gap_positions gl gs TL =
           Some (if gl < TL then [(max 0 (TL / 2 - gl / 2), min TL (TL / 2 + gl / 2))] else [])"
  using assms by (auto simp: gap_positions_def Let_def max_def min_def field_simps)

lemma gap_positions_total:
  assumes "0 < gs"
  shows "\<exists>gaps. gap_positions gl gs TL = Some gaps"
proof (cases "TL < gs")
  case True
  then show ?thesis by (simp add: gap_positions_short)
next
  case False
  with assms show ?thesis by (simp add: gap_positions_long)
qed

section \<open>Results that hold for every curve library\<close>

lemma insert_gaps_total:
  assumes "0 < gs"
  shows "\<exists>segs. insert_gaps_in_path ops path gl gs = Some segs"
proof -
  obtain gaps where "gap_positions gl gs (plength ops path) = Some gaps"
    using gap_positions_total[OF assms] by blast
  then show ?thesis
    by (simp add: insert_gaps_in_path_def Let_def split: prod.split)
qed

text \<open>
  Claim C9. A curve with zero primitives yields the empty sequence, and a curve with
  primitives but total arc length zero yields the singleton holding the curve itself.
  Both results are returned (\<open>Some\<close>), whatever the gap parameters are.
\<close>

theorem degenerate_input:
  "(plen ops path = 0 \<longrightarrow> insert_gaps_in_path ops path gl gs = Some []) \<and>
   (0 < plen ops path \<and> plength ops path = 0 \<longrightarrow>
      insert_gaps_in_path ops path gl gs = Some [path])"
  by (simp add: insert_gaps_in_path_def)

theorem degenerate_input_witness:
  "insert_gaps_in_path (ideal_ops\<lparr>plen := \<lambda>_. 0\<rparr>) (0, 100) 3 40 = Some [] \<and>
   insert_gaps_in_path ideal_ops (5, 5) 3 40 = Some [(5, 5)]"
  using degenerate_input[of "ideal_ops\<lparr>plen := \<lambda>_. 0\<rparr>" "(0, 100)" 3 40]
        degenerate_input[of ideal_ops "(5, 5)" 3 40]
  by (simp add: ideal_ops_def)

text \<open>
  Claim C7. When the total arc length equals \<open>gap_spacing\<close> exactly, the placement loop
  starts at \<open>pos = gap_spacing\<close>, finds \<open>pos < total_length\<close> false, records no gap, and
  the function returns the curve unchanged as the only segment.
\<close>

theorem length_equals_spacing:
  assumes "0 < plen ops path" "plength ops path = gs"
  shows "gap_positions gl gs (plength ops path) = Some [] \<and>
         insert_gaps_in_path ops path gl gs = Some [path]"
proof -
  have "gap_positions gl gs gs = Some []"
    by (simp add: gap_positions_def place_gaps_at_end)
  with assms show ?thesis by (simp add: insert_gaps_in_path_def Let_def)
qed

theorem length_equals_spacing_witness:
  "gap_positions 3 40 (plength ideal_ops (0, 40)) = Some [] \<and>
   insert_gaps_in_path ideal_ops (0, 40) 3 40 = Some [(0, 40)]"
  using length_equals_spacing[of ideal_ops "(0, 40)" 40 3]
  by (simp add: ideal_ops_def)

text \<open>
  In exact arithmetic the function returns for every curve when \<open>gap_spacing > 0\<close>, and
  never returns when \<open>gap_spacing \<le> 0\<close> on a curve with primitives and positive length.
\<close>

lemma termination_exact:
  "(0 < gs \<longrightarrow> (\<exists>segs. insert_gaps_in_path ops path gl gs = Some segs)) \<and>
   (gs \<le> 0 \<and> 0 < plen ops path \<and> 0 < plength ops path \<longrightarrow>
      insert_gaps_in_path ops path gl gs = None)"
proof (intro conjI impI)
  assume "0 < gs"
  then show "\<exists>segs. insert_gaps_in_path ops path gl gs = Some segs"
    by (rule insert_gaps_total)
next
  assume h: "gs \<le> 0 \<and> 0 < plen ops path \<and> 0 < plength ops path"
  then have "place_gaps gl gs (plength ops path) gs [] = None"
    by (intro place_gaps_diverges) simp_all
  with h show "insert_gaps_in_path ops path gl gs = None"
    by (simp add: insert_gaps_in_path_def gap_positions_def Let_def)
qed

section \<open>The segments are the successful crops over fixed ranges\<close>






lemma length_crop_ranges: "length (crop_ranges TL gaps c) \<le> Suc (length gaps)"
proof (induction gaps arbitrary: c)
  case Nil
  then show ?case by simp
next
  case (Cons g gaps)
  obtain s e where g: "g = (s, e)" by (cases g)
  show ?case unfolding g using Cons.IH[of e] by simp
qed


section \<open>The periodic gaps of a long path\<close>

lemma periodic_index_below:
  assumes "0 < gs" "k < nat \<lceil>TL / gs\<rceil>"
  shows "real k * gs < TL"
proof -
  from assms(2) have "int k < \<lceil>TL / gs\<rceil>" by linarith
  then have "real_of_int (int k) < TL / gs" by (simp only: less_ceiling_iff)
  with assms(1) show ?thesis by (simp add: pos_less_divide_eq)
qed


lemma nth_periodic_gaps:
  assumes "i < length (periodic_gaps gl gs TL)"
  shows "periodic_gaps gl gs TL ! i = (real (i + 1) * gs, min (real (i + 1) * gs + gl) TL)"
  using assms by (simp add: periodic_gaps_def add.commute)







section \<open>Fallbacks and absorbed failures\<close>






section \<open>Arc lengths of the segments when crops succeed\<close>





lemma crop_ok_ideal: "crop_ok ideal_ops (a, b)"
  by (simp add: crop_ok_def ideal_ops_def algebra_simps)




section \<open>Rounding to binary64\<close>

lemma rne_lower: "y - 1 / 2 \<le> of_int (rne y)"
  unfolding rne_def Let_def by (auto) linarith+

lemma rne_upper: "of_int (rne y) \<le> y + 1 / 2"
  unfolding rne_def Let_def by (auto) linarith+

lemma rne_of_int [simp]: "rne (of_int n) = n"
  by (simp add: rne_def)

lemma rne_le: 
  assumes "y \<le> of_int n" shows "rne y \<le> n"
proof -
  have "\<lfloor>y\<rfloor> \<le> n" using assms by (simp add: floor_le_iff) 
  show ?thesis
  proof (cases "\<lfloor>y\<rfloor> = n")
    case True
    then have "y = of_int n" using assms by linarith
    then show ?thesis by simp
  next
    case False
    with \<open>\<lfloor>y\<rfloor> \<le> n\<close> have "\<lfloor>y\<rfloor> + 1 \<le> n" by simp
    moreover have "rne y \<le> \<lfloor>y\<rfloor> + 1" by (simp add: rne_def Let_def)
    ultimately show ?thesis by linarith
  qed
qed

lemma rne_ge:
  assumes "of_int n \<le> y" shows "n \<le> rne y"
proof -
  have "n \<le> \<lfloor>y\<rfloor>" using assms by (simp add: le_floor_iff)
  moreover have "\<lfloor>y\<rfloor> \<le> rne y" by (simp add: rne_def Let_def)
  ultimately show ?thesis by linarith
qed

lemma rne_mono:
  assumes "x \<le> y" shows "rne x \<le> rne y"
proof (rule ccontr)
  assume "\<not> rne x \<le> rne y"
  then have "rne y + 1 \<le> rne x" by simp
  then have "real_of_int (rne y) + 1 \<le> of_int (rne x)" by linarith
  with rne_upper[of x] rne_lower[of y] assms have xy: "x = y" by linarith
  with \<open>\<not> rne x \<le> rne y\<close> show False by simp
qed


lemma ilog2_floor_log:
  assumes "0 < x"
  shows "ilog2 x = \<lfloor>log 2 x\<rfloor>"
proof (cases "1 \<le> x")
  case True
  define k where "k = \<lfloor>log 2 x\<rfloor>"
  have kb: "2 powr of_int k \<le> x" "x < 2 powr (of_int k + 1)"
    using floor_log_eq_powr_iff[of x 2 k] assms by (simp_all add: k_def)
  have k0: "0 \<le> k" using True by (simp add: k_def)
  have p: "2 powr real_of_int k = of_int (2 ^ nat k)"
    using k0 by (simp add: powr_real_of_int)
  have n1: "1 \<le> \<lfloor>x\<rfloor>" using True by simp
  have "of_int (2 ^ nat k) \<le> x" using kb(1) p by simp
  then have "2 ^ nat k \<le> \<lfloor>x\<rfloor>" by (simp only: le_floor_iff)
  then have lo: "2 powr of_int k \<le> real_of_int \<lfloor>x\<rfloor>" using p by simp
  have hi: "real_of_int \<lfloor>x\<rfloor> < 2 powr (of_int k + 1)"
    using kb(2) of_int_floor_le[of x] by linarith
  have "\<lfloor>log 2 (real_of_int \<lfloor>x\<rfloor>)\<rfloor> = k"
    using floor_log_eq_powr_iff[of "real_of_int \<lfloor>x\<rfloor>" 2 k] n1 lo hi by simp
  then show ?thesis
    using True n1 by (simp add: ilog2_def bitlen_alt_def k_def)
next
  case False
  define k where "k = \<lfloor>log 2 x\<rfloor>"
  define y where "y = 1 / x"
  define m where "m = \<lceil>y\<rceil> - 1"
  define j where "j = - k - 1"
  have kb: "2 powr of_int k \<le> x" "x < 2 powr (of_int k + 1)"
    using floor_log_eq_powr_iff[of x 2 k] assms by (simp_all add: k_def)
  have "log 2 x < 0" using False assms by simp
  then have "k < 0" by (simp add: k_def floor_less_iff)
  then have j0: "0 \<le> j" by (simp add: j_def)
  have y1: "1 < y" using False assms by (simp add: y_def)
  have ypos: "0 < y" using y1 by simp
  have "y \<le> 1 / 2 powr of_int k"
    using kb(1) assms by (simp add: y_def frac_le)
  also have "1 / (2::real) powr of_int k = 2 powr (of_int j + 1)"
    by (simp add: j_def powr_minus_divide[symmetric])
  finally have yhi: "y \<le> 2 powr (of_int j + 1)" .
  have "1 / 2 powr (of_int k + 1) < y"
    using kb(2) assms by (simp add: y_def frac_less2)
  moreover have "1 / (2::real) powr (of_int k + 1) = 2 powr of_int j"
    by (simp add: j_def powr_minus_divide[symmetric])
  ultimately have ylo: "2 powr of_int j < y" by simp
  have pj: "2 powr real_of_int j = of_int (2 ^ nat j)"
    using j0 by (simp add: powr_real_of_int)
  have my: "real_of_int m < y" "y \<le> real_of_int m + 1"
    unfolding m_def by linarith+
  have "real_of_int (2 ^ nat j) < real_of_int (m + 1)" using ylo my(2) pj by simp
  then have "2 ^ nat j < m + 1" by (simp only: of_int_less_iff)
  then have mlo: "2 powr of_int j \<le> real_of_int m" using pj by simp
  have mhi: "real_of_int m < 2 powr (of_int j + 1)" using my(1) yhi by simp
  have m1: "0 < m" using y1 unfolding m_def by linarith
  have "\<lfloor>log 2 (real_of_int m)\<rfloor> = j"
    using floor_log_eq_powr_iff[of "real_of_int m" 2 j] m1 mlo mhi by simp
  then show ?thesis
    using False m1 by (simp add: ilog2_def bitlen_alt_def k_def[symmetric] m_def y_def j_def)
qed

lemma ilog2_bounds:
  assumes "0 < x"
  shows "2 powi ilog2 x \<le> x" "x < 2 powi (ilog2 x + 1)"
  using floor_log_eq_powr_iff[of x 2 "ilog2 x"] assms ilog2_floor_log[OF assms]
    powr_real_of_int'[of 2 "ilog2 x"] powr_real_of_int'[of 2 "ilog2 x + 1"]
  by simp_all

lemma ilog2_eq:
  assumes "0 < x" "2 powi k \<le> x" "x < 2 powi (k + 1)"
  shows "ilog2 x = k"
  using floor_log_eq_powr_iff[of x 2 k] assms ilog2_floor_log[OF assms(1)]
    powr_real_of_int'[of 2 k] powr_real_of_int'[of 2 "k + 1"]
  by simp

lemma ilog2_mono:
  assumes "0 < x" "x \<le> y"
  shows "ilog2 x \<le> ilog2 y"
proof -
  have "0 < y" using assms by simp
  then show ?thesis
    using assms by (simp add: ilog2_floor_log floor_mono)
qed


lemma rnd_pos_binade:
  assumes "0 < x" "2 powi k \<le> x" "x < 2 powi (k + 1)"
  shows "rnd_pos x = of_int (rne (x / 2 powi (k - 52))) * 2 powi (k - 52)"
  by (simp add: rnd_pos_def Let_def ilog2_eq[OF assms])

lemma binade_scale:
  fixes k :: int
  shows "(2::real) powi k = 2 ^ 52 * 2 powi (k - 52)"
    and "(2::real) powi (k + 1) = 2 ^ 53 * 2 powi (k - 52)"
proof -
  have "(2::real) powi (52 + (k - 52)) = 2 powi 52 * 2 powi (k - 52)"
    by (rule power_int_add) simp
  then show "(2::real) powi k = 2 ^ 52 * 2 powi (k - 52)" by simp
  have "(2::real) powi (53 + (k - 52)) = 2 powi 53 * 2 powi (k - 52)"
    by (rule power_int_add) simp
  moreover have "53 + (k - 52) = k + 1" by simp
  ultimately show "(2::real) powi (k + 1) = 2 ^ 53 * 2 powi (k - 52)" by simp
qed

lemma scaled_binade:
  fixes x :: real
  assumes "2 powi k \<le> x" "x < 2 powi (k + 1)"
  shows "2 ^ 52 \<le> x / 2 powi (k - 52)" "x / 2 powi (k - 52) < 2 ^ 53"
proof -
  have p: "0 < (2::real) powi (k - 52)" by simp
  show "2 ^ 52 \<le> x / 2 powi (k - 52)"
    using assms(1) unfolding binade_scale(1)[of k] pos_le_divide_eq[OF p] .
  show "x / 2 powi (k - 52) < 2 ^ 53"
    using assms(2) unfolding binade_scale(2)[of k] pos_divide_less_eq[OF p] .
qed

lemma rnd_pos_range:
  assumes "0 < x" "2 powi k \<le> x" "x < 2 powi (k + 1)"
  shows "2 powi k \<le> rnd_pos x" "rnd_pos x \<le> 2 powi (k + 1)"
proof -
  note s = scaled_binade[OF assms(2,3)]
  have p: "0 \<le> (2::real) powi (k - 52)" by simp
  have "real_of_int (2 ^ 52) \<le> x / 2 powi (k - 52)" using s(1) by simp
  then have "2 ^ 52 \<le> rne (x / 2 powi (k - 52))" by (rule rne_ge)
  then have "real_of_int (2 ^ 52) \<le> of_int (rne (x / 2 powi (k - 52)))"
    by (simp only: of_int_le_iff)
  then have "(2::real) ^ 52 \<le> of_int (rne (x / 2 powi (k - 52)))" by simp
  then have "(2::real) ^ 52 * 2 powi (k - 52) \<le> of_int (rne (x / 2 powi (k - 52))) * 2 powi (k - 52)"
    using p by (rule mult_right_mono)
  then show "2 powi k \<le> rnd_pos x"
    unfolding rnd_pos_binade[OF assms] binade_scale(1)[of k] .
  have "x / 2 powi (k - 52) \<le> real_of_int (2 ^ 53)" using s(2) by simp
  then have "rne (x / 2 powi (k - 52)) \<le> 2 ^ 53" by (rule rne_le)
  then have "real_of_int (rne (x / 2 powi (k - 52))) \<le> of_int (2 ^ 53)"
    by (simp only: of_int_le_iff)
  then have "of_int (rne (x / 2 powi (k - 52))) \<le> (2::real) ^ 53" by simp
  then have "of_int (rne (x / 2 powi (k - 52))) * 2 powi (k - 52) \<le> (2::real) ^ 53 * 2 powi (k - 52)"
    using p by (rule mult_right_mono)
  then show "rnd_pos x \<le> 2 powi (k + 1)"
    unfolding rnd_pos_binade[OF assms] binade_scale(2)[of k] .
qed

lemma rnd_pos_positive:
  assumes "0 < x" shows "0 < rnd_pos x"
proof -
  have "0 < (2::real) powi ilog2 x" by simp
  also have "\<dots> \<le> rnd_pos x" using rnd_pos_range(1)[OF assms ilog2_bounds[OF assms]] .
  finally show ?thesis .
qed

lemma rnd_pos_mono:
  assumes "0 < x" "x \<le> y"
  shows "rnd_pos x \<le> rnd_pos y"
proof -
  have y: "0 < y" using assms by simp
  note bx = ilog2_bounds[OF assms(1)] and bz = ilog2_bounds[OF y]
  show ?thesis
  proof (cases "ilog2 x = ilog2 y")
    case True
    have p: "0 \<le> (2::real) powi (ilog2 y - 52)" by simp
    have "x / 2 powi (ilog2 y - 52) \<le> y / 2 powi (ilog2 y - 52)"
      using assms(2) by (simp add: divide_right_mono)
    then have "rne (x / 2 powi (ilog2 y - 52)) \<le> rne (y / 2 powi (ilog2 y - 52))"
      by (rule rne_mono)
    then have "real_of_int (rne (x / 2 powi (ilog2 y - 52))) \<le> of_int (rne (y / 2 powi (ilog2 y - 52)))"
      by simp
    then have "real_of_int (rne (x / 2 powi (ilog2 y - 52))) * 2 powi (ilog2 y - 52)
               \<le> of_int (rne (y / 2 powi (ilog2 y - 52))) * 2 powi (ilog2 y - 52)"
      using p by (rule mult_right_mono)
    then show ?thesis
      unfolding rnd_pos_def Let_def True .
  next
    case False
    with ilog2_mono[OF assms] have "ilog2 x + 1 \<le> ilog2 y" by simp
    then have "(2::real) powi (ilog2 x + 1) \<le> 2 powi ilog2 y"
      by (intro power_int_increasing) simp_all
    with rnd_pos_range(2)[OF assms(1) bx] rnd_pos_range(1)[OF y bz]
    show ?thesis by linarith
  qed
qed


lemma rnd_pos_lower:
  assumes "0 < x"
  shows "x - x / 2 ^ 53 \<le> rnd_pos x"
proof -
  define k where "k = ilog2 x"
  define p where "p = (2::real) powi (k - 52)"
  define y where "y = x / p"
  have p: "0 < p" by (simp add: p_def)
  note b = ilog2_bounds[OF assms, folded k_def]
  have r: "rnd_pos x = of_int (rne y) * p"
    unfolding y_def p_def by (rule rnd_pos_binade[OF assms b])
  have "2 ^ 52 \<le> y" unfolding y_def p_def using scaled_binade(1)[OF b] .
  then have "1 / 2 \<le> y / 2 ^ 53" by simp
  with rne_lower[of y] have "y - y / 2 ^ 53 \<le> of_int (rne y)" by linarith
  then have "(y - y / 2 ^ 53) * p \<le> of_int (rne y) * p"
    using p by (simp only: mult_le_cancel_right_pos)
  moreover have x: "y * p = x" using p by (simp add: y_def)
  moreover have "(y - y / 2 ^ 53) * p = y * p - (y * p) / 2 ^ 53"
    by (simp only: left_diff_distrib times_divide_eq_left)
  ultimately show ?thesis unfolding r by simp
qed

lemma rnd64_mono:
  assumes "x \<le> y" shows "rnd64 x \<le> rnd64 y"
proof -
  consider "0 < x" | "x = 0" | "x < 0" "0 \<le> y" | "x < 0" "y < 0" by linarith
  then show ?thesis
  proof cases
    case 1
    then show ?thesis using assms rnd_pos_mono[OF 1 assms] by (simp add: rnd64_def)
  next
    case 2
    then show ?thesis using assms rnd_pos_positive[of y]
      by (auto simp: rnd64_def intro: less_imp_le)
  next
    case 3
    then show ?thesis using rnd_pos_positive[of "- x"] rnd_pos_positive[of y]
      by (auto simp: rnd64_def intro: less_imp_le)
  next
    case 4
    then have "0 < - y" "- y \<le> - x" using assms by simp_all
    from rnd_pos_mono[OF this] 4 show ?thesis by (simp add: rnd64_def)
  qed
qed


lemma rnd64_of_int:
  assumes "0 \<le> n" "n < 2 ^ 53"
  shows "rnd64 (of_int n) = of_int n"
proof (cases "n = 0")
  case True
  then show ?thesis by (simp add: rnd64_def)
next
  case False
  with assms have n: "0 < n" by simp
  then have x: "0 < real_of_int n" by simp
  define k where "k = ilog2 (real_of_int n)"
  note b = ilog2_bounds[OF x, folded k_def]
  have k: "k \<le> 52"
  proof (rule ccontr)
    assume "\<not> k \<le> 52"
    then have "53 \<le> k" by simp
    then have "(2::real) powi 53 \<le> 2 powi k" by (intro power_int_increasing) simp_all
    with b(1) have "(2::real) ^ 53 \<le> real_of_int n" by simp
    moreover have "real_of_int n < real_of_int (2 ^ 53)" using assms(2) by (simp only: of_int_less_iff)
    ultimately show False by simp
  qed
  define d where "d = nat (52 - k)"
  have "(2::real) powi (k - 52) = inverse (2 powi (int d))"
    using k power_int_minus[of "2::real" "int d"] by (simp add: d_def)
  then have p: "(2::real) powi (k - 52) = 1 / 2 ^ d" by (simp add: inverse_eq_divide)
  have q: "real_of_int n / 2 powi (k - 52) = of_int (n * 2 ^ d)" by (simp add: p)
  have "rnd_pos (of_int n) = of_int (rne (of_int n / 2 powi (k - 52))) * 2 powi (k - 52)"
    by (rule rnd_pos_binade[OF x b])
  also have "\<dots> = of_int (n * 2 ^ d) * 2 powi (k - 52)"
    unfolding q rne_of_int ..
  finally have "rnd_pos (of_int n) = of_int n" by (simp add: p)
  with x show ?thesis by (simp add: rnd64_def)
qed

lemma rnd64_power2: "rnd64 (2 powi k) = 2 powi k"
proof -
  have lt: "(2::real) powi k < 2 powi (k + 1)"
    by (intro power_int_strict_increasing) simp_all
  have "rnd_pos (2 powi k) = of_int (rne (2 powi k / 2 powi (k - 52))) * 2 powi (k - 52)"
    by (rule rnd_pos_binade) (use lt in simp_all)
  also have "(2::real) powi k / 2 powi (k - 52) = of_int (2 ^ 52)"
    unfolding binade_scale(1)[of k] by simp
  also have "of_int (rne (of_int (2 ^ 52))) * (2::real) powi (k - 52) = 2 powi k"
    unfolding binade_scale(1)[of k] rne_of_int by simp
  finally show ?thesis by (simp add: rnd64_def)
qed

lemma rnd64_nonpos: "x \<le> 0 \<Longrightarrow> rnd64 x \<le> 0"
  using rnd_pos_positive[of "- x"] by (auto simp: rnd64_def intro: less_imp_le)

lemma rnd64_nonneg: "0 \<le> x \<Longrightarrow> 0 \<le> rnd64 x"
  using rnd_pos_positive[of x] by (auto simp: rnd64_def intro: less_imp_le)


lemma rounding_exact: "rounding (\<lambda>x. x)"
  by (simp add: rounding_def)

lemma rnd64_lower:
  assumes "0 < x" shows "x - x / 2 ^ 53 \<le> rnd64 x"
  using rnd_pos_lower[OF assms] assms by (simp add: rnd64_def)

section \<open>The placement loop in float arithmetic\<close>

lemma place_gaps_fl_diverges:
  assumes "I pos" and step: "\<And>p. I p \<Longrightarrow> p < L \<and> I (rnd (p + gs))"
  shows "place_gaps_fl rnd gl gs L pos acc = None"
proof (rule ccontr)
  assume "place_gaps_fl rnd gl gs L pos acc \<noteq> None"
  then obtain y where y: "place_gaps_fl rnd gl gs L pos acc = Some y" by auto
  have "\<not> (rnd = rnd \<and> gs = gs \<and> L = L \<and> I pos)"
  proof (rule place_gaps_fl.raw_induct
      [where P = "\<lambda>r a b c d e res. \<not> (r = rnd \<and> b = gs \<and> c = L \<and> I d)", OF _ y])
    fix f :: "(real \<Rightarrow> real) \<Rightarrow> real \<Rightarrow> real \<Rightarrow> real \<Rightarrow> real \<Rightarrow> (real \<times> real) list
               \<Rightarrow> (real \<times> real) list option"
    fix r :: "real \<Rightarrow> real" and a b c d :: real and e res :: "(real \<times> real) list"
    assume IH: "\<And>r a b c d e res. f r a b c d e = Some res \<Longrightarrow>
                  \<not> (r = rnd \<and> b = gs \<and> c = L \<and> I d)"
    assume eq: "(if d < c then f r a b c (r (d + b)) (e @ [(d, min (r (d + a)) c)]) else Some e)
                  = Some res"
    show "\<not> (r = rnd \<and> b = gs \<and> c = L \<and> I d)"
    proof
      assume h: "r = rnd \<and> b = gs \<and> c = L \<and> I d"
      with step[of d] have lt: "d < c" and nxt: "I (r (d + b))" by simp_all
      from eq lt have "f r a b c (r (d + b)) (e @ [(d, min (r (d + a)) c)]) = Some res" by simp
      from IH[OF this] h nxt show False by simp
    qed
  qed
  with assms(1) show False by simp
qed

lemma place_gaps_fl_returns:
  assumes "0 < \<delta>" and prog: "\<forall>p. 0 \<le> p \<and> p < L \<longrightarrow> p + \<delta> \<le> rnd (p + gs)"
  shows "0 \<le> pos \<Longrightarrow> nat \<lceil>(L - pos) / \<delta>\<rceil> \<le> n \<Longrightarrow>
         \<exists>gaps. place_gaps_fl rnd gl gs L pos acc = Some gaps"
proof (induction n arbitrary: pos acc)
  case 0
  then have "(L - pos) / \<delta> \<le> 0" by simp
  with assms(1) have "\<not> pos < L" by (simp add: divide_le_0_iff)
  then show ?case by (subst place_gaps_fl.simps) simp
next
  case (Suc n)
  show ?case
  proof (cases "pos < L")
    case False
    then show ?thesis by (subst place_gaps_fl.simps) simp
  next
    case True
    from prog Suc.prems(1) True have p: "pos + \<delta> \<le> rnd (pos + gs)" by simp
    then have nn: "0 \<le> rnd (pos + gs)" using Suc.prems(1) assms(1) by linarith
    have "L - rnd (pos + gs) \<le> (L - pos) - \<delta>" using p by simp
    then have "(L - rnd (pos + gs)) / \<delta> \<le> ((L - pos) - \<delta>) / \<delta>"
      using assms(1) by (simp add: divide_right_mono)
    also have "\<dots> = (L - pos) / \<delta> - 1" using assms(1) by (simp add: field_simps)
    finally have "\<lceil>(L - rnd (pos + gs)) / \<delta>\<rceil> \<le> \<lceil>(L - pos) / \<delta>\<rceil> - 1"
      by (metis ceiling_diff_one ceiling_mono)
    with Suc.prems(2) have "nat \<lceil>(L - rnd (pos + gs)) / \<delta>\<rceil> \<le> n" by linarith
    from Suc.IH[OF nn this] True show ?thesis
      by (subst place_gaps_fl.simps) simp
  qed
qed

lemma gap_positions_fl_total:
  assumes "0 < \<delta>" "0 < gs" and prog: "\<forall>p. 0 \<le> p \<and> p < L \<longrightarrow> p + \<delta> \<le> rnd (p + gs)"
  shows "\<exists>gaps. gap_positions_fl rnd gl gs L = Some gaps"
proof (cases "L < gs")
  case True
  then show ?thesis by (simp add: gap_positions_fl_def Let_def)
next
  case False
  have "0 \<le> gs" using assms(2) by simp
  from place_gaps_fl_returns[OF assms(1) prog this order_refl]
  have "\<exists>gaps. place_gaps_fl rnd gl gs L gs [] = Some gaps" .
  with False show ?thesis by (simp add: gap_positions_fl_def)
qed

lemma rnd64_progress:
  assumes "0 < gs" "L \<le> 2 ^ 52 * gs" "0 \<le> p" "p < L"
  shows "p + gs / 4 \<le> rnd64 (p + gs)"
proof -
  have x: "0 < p + gs" using assms by simp
  define c :: real where "c = 2 ^ 52"
  have c: "4 \<le> c" by (simp add: c_def)
  have "p + gs \<le> c * gs + gs" using assms unfolding c_def by linarith
  then have "(p + gs) / (2 * c) \<le> (c * gs + gs) / (2 * c)"
    using c by (intro divide_right_mono) simp_all
  also have "\<dots> = gs / 2 + gs / (2 * c)" using c by (simp add: field_simps)
  also have "gs / (2 * c) \<le> gs / 4"
    using c assms(1) by (intro divide_left_mono) simp_all
  finally have b: "(p + gs) / (2 * c) \<le> 3 / 4 * gs" by simp
  have e: "(2::real) ^ 53 = 2 * c" by (simp add: c_def)
  from rnd64_lower[OF x] have "p + gs - (p + gs) / (2 * c) \<le> rnd64 (p + gs)"
    unfolding e .
  with b show ?thesis by linarith
qed

lemma insert_fl_total:
  assumes "\<exists>gaps. gap_positions_fl rnd gl gs (plength ops path) = Some gaps"
  shows "\<exists>segs. insert_gaps_in_path_fl rnd ops path gl gs = Some segs"
  using assms by (auto simp: insert_gaps_in_path_fl_def Let_def split: prod.split)




lemma rnd64_at:
  assumes "0 < x" "2 powi k \<le> x" "x < 2 powi (k + 1)"
  shows "rnd64 x = of_int (rne (x / 2 powi (k - 52))) * 2 powi (k - 52)"
  using rnd_pos_binade[OF assms] assms(1) by (simp add: rnd64_def)

lemma absorbed_addition: "rnd64 (2 ^ 59 + 40) = 2 ^ 59"
proof -
  have "rnd64 (2 ^ 59 + 40) =
          of_int (rne ((2 ^ 59 + 40) / 2 powi (59 - 52))) * 2 powi (59 - 52)"
    by (rule rnd64_at) simp_all
  also have "rne ((2 ^ 59 + 40) / 2 powi (59 - 52)) = 2 ^ 52"
    by (simp add: rne_def)
  finally show ?thesis by simp
qed

text \<open>
  Claim C10, amended. In binary64 arithmetic the function returns for every curve whose
  total length is at most \<open>2 ^ 52 * gap_spacing\<close>, when \<open>gap_spacing > 0\<close>: there every
  addition \<open>pos + gap_spacing\<close> of the loop raises \<open>pos\<close> by at least a quarter of the
  spacing, so the loop ends after finitely many turns. Nothing rejects
  \<open>gap_spacing \<le> 0\<close>; there, for a curve with primitives and positive arc length, the
  loop never ends and the function returns nothing.
\<close>

theorem termination_iff_positive_spacing:
  "(0 < gs \<and> plength ops path \<le> 2 ^ 52 * gs \<longrightarrow>
      (\<exists>segs. insert_gaps_in_path_fl rnd64 ops path gl gs = Some segs)) \<and>
   (gs \<le> 0 \<and> 0 < plen ops path \<and> 0 < plength ops path \<longrightarrow>
      insert_gaps_in_path_fl rnd64 ops path gl gs = None)"
proof (intro conjI impI)
  assume h: "0 < gs \<and> plength ops path \<le> 2 ^ 52 * gs"
  then have d: "0 < gs / 4" by simp
  have "\<forall>p. 0 \<le> p \<and> p < plength ops path \<longrightarrow> p + gs / 4 \<le> rnd64 (p + gs)"
    using rnd64_progress[of gs "plength ops path"] h by blast
  from gap_positions_fl_total[OF d _ this, of gl] h
  show "\<exists>segs. insert_gaps_in_path_fl rnd64 ops path gl gs = Some segs"
    by (intro insert_fl_total) simp
next
  assume h: "gs \<le> 0 \<and> 0 < plen ops path \<and> 0 < plength ops path"
  have "place_gaps_fl rnd64 gl gs (plength ops path) gs [] = None"
  proof (rule place_gaps_fl_diverges[where I = "\<lambda>p. p \<le> 0"])
    show "gs \<le> 0" using h by simp
  next
    fix p :: real assume "p \<le> 0"
    with h show "p < plength ops path \<and> rnd64 (p + gs) \<le> 0"
      by (simp add: rnd64_nonpos)
  qed
  with h show "insert_gaps_in_path_fl rnd64 ops path gl gs = None"
    by (simp add: insert_gaps_in_path_fl_def gap_positions_fl_def Let_def)
qed

theorem termination_iff_positive_spacing_witness:
  "(\<exists>segs. insert_gaps_in_path_fl rnd64 ideal_ops (0, 100) 3 40 = Some segs) \<and>
   insert_gaps_in_path_fl rnd64 ideal_ops (0, 100) 3 0 = None"
  using termination_iff_positive_spacing[of 40 ideal_ops "(0, 100)" 3]
        termination_iff_positive_spacing[of 0 ideal_ops "(0, 100)" 3]
  by (simp add: ideal_ops_def)

text \<open>
  On a path of length \<open>10 ^ 18\<close> with spacing 40 the loop does not end although the
  spacing is positive: once \<open>pos\<close> has reached \<open>2 ^ 59\<close> the sum \<open>pos + 40\<close> rounds back
  to \<open>pos\<close>, which stays below the total length for ever.
\<close>

theorem absorption_counterexample:
  "insert_gaps_in_path_fl rnd64 ideal_ops (0, 10 ^ 18) 3 40 = None"
proof -
  have "place_gaps_fl rnd64 3 40 (10 ^ 18) 40 [] = None"
  proof (rule place_gaps_fl_diverges[where I = "\<lambda>p. p \<le> 2 ^ 59"])
    show "(40::real) \<le> 2 ^ 59" by simp
  next
    fix p :: real assume "p \<le> 2 ^ 59"
    then have "p + 40 \<le> 2 ^ 59 + 40" by simp
    then have "rnd64 (p + 40) \<le> rnd64 (2 ^ 59 + 40)" by (rule rnd64_mono)
    then have "rnd64 (p + 40) \<le> 2 ^ 59" by (simp only: absorbed_addition)
    moreover have "p < 10 ^ 18" using \<open>p \<le> 2 ^ 59\<close> by simp
    ultimately show "p < 10 ^ 18 \<and> rnd64 (p + 40) \<le> 2 ^ 59" by simp
  qed
  then show ?thesis
    by (simp add: insert_gaps_in_path_fl_def gap_positions_fl_def ideal_ops_def)
qed

section \<open>The periodic gaps in float arithmetic\<close>








lemma rnd64_numeral [simp]:
  "numeral w < (2::int) ^ 53 \<Longrightarrow> rnd64 (numeral w) = numeral w"
  using rnd64_of_int[of "numeral w"] by simp

lemma rnd64_1 [simp]: "rnd64 1 = 1"
  using rnd64_of_int[of 1] by simp



section \<open>Exact arithmetic is the float model with the identity rounding\<close>

lemma place_gaps_fl_exact:
  "place_gaps_fl (\<lambda>x. x) gl gs L pos acc = place_gaps gl gs L pos acc"
proof -
  have a: "place_gaps gl gs L pos acc = Some y" if "place_gaps_fl (\<lambda>x. x) gl gs L pos acc = Some y" for y
  proof -
    have "(\<lambda>x. x) = (\<lambda>x::real. x) \<longrightarrow> place_gaps gl gs L pos acc = Some y"
    proof (rule place_gaps_fl.raw_induct
        [where P = "\<lambda>r a b c d e out. r = (\<lambda>x. x) \<longrightarrow> place_gaps a b c d e = Some out", OF _ that])
      fix f :: "(real \<Rightarrow> real) \<Rightarrow> real \<Rightarrow> real \<Rightarrow> real \<Rightarrow> real \<Rightarrow> (real \<times> real) list
                 \<Rightarrow> (real \<times> real) list option"
      fix r :: "real \<Rightarrow> real" and a b c d :: real and e out :: "(real \<times> real) list"
      assume IH: "\<And>r a b c d e out. f r a b c d e = Some out \<Longrightarrow>
                    r = (\<lambda>x. x) \<longrightarrow> place_gaps a b c d e = Some out"
      assume eq: "(if d < c then f r a b c (r (d + b)) (e @ [(d, min (r (d + a)) c)]) else Some e)
                    = Some out"
      show "r = (\<lambda>x. x) \<longrightarrow> place_gaps a b c d e = Some out"
      proof
        assume r: "r = (\<lambda>x. x)"
        show "place_gaps a b c d e = Some out"
        proof (cases "d < c")
          case True
          with eq have "f r a b c (r (d + b)) (e @ [(d, min (r (d + a)) c)]) = Some out" by simp
          from IH[OF this] r have "place_gaps a b c (d + b) (e @ [(d, min (d + a) c)]) = Some out"
            by simp
          with True show ?thesis by (subst place_gaps.simps) simp
        next
          case False
          with eq show ?thesis by (subst place_gaps.simps) simp
        qed
      qed
    qed
    then show ?thesis by simp
  qed
  have b: "place_gaps_fl (\<lambda>x. x) gl gs L pos acc = Some y" if "place_gaps gl gs L pos acc = Some y" for y
  proof (rule place_gaps.raw_induct
      [where P = "\<lambda>a b c d e out. place_gaps_fl (\<lambda>x. x) a b c d e = Some out", OF _ that])
    fix f :: "real \<Rightarrow> real \<Rightarrow> real \<Rightarrow> real \<Rightarrow> (real \<times> real) list \<Rightarrow> (real \<times> real) list option"
    fix a b c d :: real and e out :: "(real \<times> real) list"
    assume IH: "\<And>a b c d e out. f a b c d e = Some out \<Longrightarrow>
                  place_gaps_fl (\<lambda>x. x) a b c d e = Some out"
    assume eq: "(if d < c then f a b c (d + b) (e @ [(d, min (d + a) c)]) else Some e) = Some out"
    show "place_gaps_fl (\<lambda>x. x) a b c d e = Some out"
    proof (cases "d < c")
      case True
      with eq have "f a b c (d + b) (e @ [(d, min (d + a) c)]) = Some out" by simp
      from IH[OF this] True show ?thesis by (subst place_gaps_fl.simps) simp
    next
      case False
      with eq show ?thesis by (subst place_gaps_fl.simps) simp
    qed
  qed
  show ?thesis
  proof (cases "place_gaps gl gs L pos acc")
    case None
    then show ?thesis using a by (cases "place_gaps_fl (\<lambda>x. x) gl gs L pos acc") auto
  next
    case (Some y)
    then show ?thesis using b by simp
  qed
qed

lemma gap_positions_fl_exact: "gap_positions_fl (\<lambda>x. x) gl gs L = gap_positions gl gs L"
  by (simp add: gap_positions_fl_def gap_positions_def place_gaps_fl_exact)

lemma build_segments_fl_exact:
  "build_segments_fl (\<lambda>x. x) ops path L gaps c out = build_segments ops path L gaps c out"
proof (induction gaps arbitrary: c out)
  case Nil
  then show ?case by simp
next
  case (Cons g gaps)
  obtain s e where g: "g = (s, e)" by (cases g)
  show ?case unfolding g by (simp add: Cons.IH)
qed

lemma final_segment_fl_exact:
  "final_segment_fl (\<lambda>x. x) ops path L c out = final_segment ops path L c out"
  by (simp add: final_segment_fl_def final_segment_def)

lemma insert_gaps_in_path_fl_exact:
  "insert_gaps_in_path_fl (\<lambda>x. x) ops path gl gs = insert_gaps_in_path ops path gl gs"
  unfolding insert_gaps_in_path_fl_def insert_gaps_in_path_def gap_positions_fl_exact
    build_segments_fl_exact final_segment_fl_exact
  by (rule refl)

section \<open>Rounded sums change the gap count\<close>

text \<open>
  Without exact sums the count follows the rounded positions: with spacing \<open>0.1\<close> and
  length \<open>0.30000000000000004\<close> (as floats) the third position \<open>0.1 + 0.1 + 0.1\<close> rounds
  up to the length itself, so two gaps are recorded although the quotient of length and
  spacing is above 3.
\<close>

lemma rounded_sums_differ:
  "map_option length
     (gap_positions_fl rnd64 3 (3602879701896397 / 36028797018963968)
        (1351079888211149 / 4503599627370496)) = Some 2 \<and>
   \<lfloor>(1351079888211149 / 4503599627370496) / (3602879701896397 / 36028797018963968 :: real)\<rfloor> = 3 \<and>
   (1351079888211149 / 4503599627370496) / (3602879701896397 / 36028797018963968 :: real) \<notin> \<int>"
proof -
  have a: "rnd64 (3602879701896397 / 18014398509481984) = 3602879701896397 / 18014398509481984"
  proof -
    have "rnd64 (3602879701896397 / 18014398509481984) =
        of_int (rne (3602879701896397 / 18014398509481984 / 2 powi (- 3 - 52))) * 2 powi (- 3 - 52)"
      by (rule rnd64_at) simp_all
    also have "rne (3602879701896397 / 18014398509481984 / 2 powi (- 3 - 52)) = 7205759403792794"
      by (simp add: rne_def)
    finally show ?thesis by simp
  qed
  have b: "rnd64 (10808639105689191 / 36028797018963968) = 1351079888211149 / 4503599627370496"
  proof -
    have "rnd64 (10808639105689191 / 36028797018963968) =
        of_int (rne (10808639105689191 / 36028797018963968 / 2 powi (- 2 - 52))) * 2 powi (- 2 - 52)"
      by (rule rnd64_at) simp_all
    also have "rne (10808639105689191 / 36028797018963968 / 2 powi (- 2 - 52)) = 5404319552844596"
      by (simp add: rne_def)
    finally show ?thesis by simp
  qed
  have "map_option length
     (gap_positions_fl rnd64 3 (3602879701896397 / 36028797018963968)
        (1351079888211149 / 4503599627370496)) = Some 2"
    by (simp add: gap_positions_fl_def place_gaps_fl.simps a b)
  moreover have f: "\<lfloor>(1351079888211149 / 4503599627370496) / (3602879701896397 / 36028797018963968 :: real)\<rfloor> = 3"
    by simp
  moreover have "(1351079888211149 / 4503599627370496) / (3602879701896397 / 36028797018963968 :: real) \<notin> \<int>"
  proof
    assume "(1351079888211149 / 4503599627370496) / (3602879701896397 / 36028797018963968 :: real) \<in> \<int>"
    then have "(1351079888211149 / 4503599627370496) / (3602879701896397 / 36028797018963968 :: real)
               = of_int \<lfloor>(1351079888211149 / 4503599627370496) / (3602879701896397 / 36028797018963968 :: real)\<rfloor>"
      by (metis Ints_cases floor_of_int)
    then show False unfolding f by simp
  qed
  ultimately show ?thesis by simp
qed

section \<open>Segments and gaps partition the path\<close>

lemma gaps_fit_Nil: "gaps_fit L c [] \<longleftrightarrow> 0 \<le> c \<and> c \<le> L"
  by (simp add: gaps_fit_def)














lemma rnd64_0 [simp]: "rnd64 0 = 0"
  by (simp add: rnd64_def)














end
